theory Spec2Isabelle
  imports Complex_Main
begin

section \<open>Data model\<close>

text \<open>
  UV Cell Snap is a Blender add-on; its two operators (\<open>UVCellSnapOperator.execute\<close> and
  \<open>UVCellSnapOffset.execute\<close>) read a mesh through the host's \<open>bmesh\<close> interface and
  write UV coordinates back through loop handles.

  Handles are natural numbers. A loop is a face corner and belongs to exactly one face, so a
  loop handle is the pair of its face and its corner index; \<open>face.loops\<close> is the list of
  the face's corners. UV coordinates are the host's floating-point pairs, idealised here as
  pairs of reals. A UV layer is a store from loop handles to coordinates, and
  \<open>bm.loops.layers.uv\<close> is a dictionary from channel names to layers.
\<close>

type_synonym loop = "nat \<times> nat"
type_synonym uv = "real \<times> real"
type_synonym uv_layer = "loop \<Rightarrow> uv"

record bmesh =
  faces :: "nat list"
  face_select :: "nat \<Rightarrow> bool"
  face_edges :: "nat \<Rightarrow> nat list"
  face_len :: "nat \<Rightarrow> nat"
  uv_layers :: "string \<rightharpoonup> uv_layer"

text \<open>\<open>face.loops\<close>: the corners of a face, in order.\<close>

definition face_loops :: "'a bmesh_scheme \<Rightarrow> nat \<Rightarrow> loop list" where
  "face_loops M face = map (Pair face) [0..<face_len M face]"

text \<open>
  \<open>edge.link_faces\<close> is a host attribute: the faces of the mesh that use the edge.
\<close>

definition link_faces :: "'a bmesh_scheme \<Rightarrow> nat \<Rightarrow> nat list" where
  "link_faces M edge = filter (\<lambda>f. edge \<in> set (face_edges M f)) (faces M)"

record prefs =
  uv_channel :: string
  grid_columns :: int
  grid_rows :: int

text \<open>
  An object of the selection has a type and refers to its mesh data by handle; the scene
  maps mesh handles to meshes, so two objects may share one mesh.
\<close>

record obj =
  obj_type :: string
  data :: nat

type_synonym scene = "nat \<Rightarrow> bmesh"

datatype status = FINISHED | CANCELLED

type_synonym report = "string \<times> string"

datatype error = ZeroDivisionError | IndexError

section \<open>Island detection\<close>

definition vec_sub :: "uv \<Rightarrow> uv \<Rightarrow> uv" where
  "vec_sub a b = (fst a - fst b, snd a - snd b)"

definition vec_length :: "uv \<Rightarrow> real" where
  "vec_length v = sqrt ((fst v)\<^sup>2 + (snd v)\<^sup>2)"

text \<open>The test \<open>(loop1[uv_layer].uv - loop2[uv_layer].uv).length < 0.001\<close>.\<close>

definition uv_close :: "uv \<Rightarrow> uv \<Rightarrow> bool" where
  "uv_close a b = (vec_length (vec_sub a b) < 0.001)"

definition are_uvs_connected :: "'a bmesh_scheme \<Rightarrow> uv_layer \<Rightarrow> nat \<Rightarrow> nat \<Rightarrow> bool" where
  "are_uvs_connected M uvl face1 face2 =
     list_ex (\<lambda>loop1. list_ex (\<lambda>loop2. uv_close (uvl loop1) (uvl loop2)) (face_loops M face2))
       (face_loops M face1)"

text \<open>
  The sets \<open>island_faces\<close>, \<open>to_process\<close> and \<open>processed_faces\<close> are lists without
  repetition; \<open>add\<close> is \<open>List.insert\<close>. Python iterates over a set in an order it does
  not specify; a list is iterated from its front. The body of the two nested \<open>for\<close>
  loops of \<open>get_uv_island\<close>, for one linked face:
\<close>

definition visit_linked ::
  "'a bmesh_scheme \<Rightarrow> uv_layer \<Rightarrow> nat list \<Rightarrow> nat \<Rightarrow> nat \<Rightarrow> nat list \<times> nat list \<Rightarrow> nat list \<times> nat list"
where
  "visit_linked M uvl processed_faces face linked_face st =
     (case st of (island_faces, to_process) \<Rightarrow>
        if face_select M linked_face \<and> linked_face \<notin> set island_faces
           \<and> linked_face \<notin> set processed_faces \<and> are_uvs_connected M uvl face linked_face
        then (List.insert linked_face island_faces, List.insert linked_face to_process)
        else (island_faces, to_process))"

definition expand_face ::
  "'a bmesh_scheme \<Rightarrow> uv_layer \<Rightarrow> nat list \<Rightarrow> nat \<Rightarrow> nat list \<times> nat list \<Rightarrow> nat list \<times> nat list"
where
  "expand_face M uvl processed_faces face st =
     fold (\<lambda>edge. fold (visit_linked M uvl processed_faces face) (link_faces M edge))
       (face_edges M face) st"

text \<open>
  \<open>to_process.pop()\<close> removes an arbitrary element. The choice is a parameter: \<open>pick\<close>
  sees both sets and names the position that is popped (taken modulo the size of the work
  set). No state of the loop occurs twice in one run, so every order of popping is the
  run of some \<open>pick\<close>.
\<close>

type_synonym pick = "nat list \<Rightarrow> nat list \<Rightarrow> nat"

definition pop_face :: "pick \<Rightarrow> nat list \<Rightarrow> nat list \<Rightarrow> nat \<times> nat list" where
  "pop_face pick island_faces to_process =
     (let i = pick island_faces to_process mod length to_process
      in (to_process ! i, take i to_process @ drop (Suc i) to_process))"

lemma visit_linked_cases:
  assumes "visit_linked M uvl P f g (I, W) = (I', W')"
  shows "(I' = I \<and> W' = W) \<or> (g \<notin> set I \<and> I' = g # I)"
  using assms by (auto simp: visit_linked_def split: if_splits)

lemma grow_insert:
  "g \<notin> A \<Longrightarrow> g \<in> F \<Longrightarrow> B = insert g A \<Longrightarrow> A \<subset> B \<and> B \<subseteq> A \<union> F"
  by auto

lemma grow_trans:
  "A \<subset> B \<and> B \<subseteq> A \<union> F \<Longrightarrow> B \<subset> C \<and> C \<subseteq> B \<union> F \<Longrightarrow> A \<subset> C \<and> C \<subseteq> A \<union> F"
  by auto

lemma fold_visit_grows:
  assumes "fold (visit_linked M uvl P f) gs (I, W) = (I', W')" and "set gs \<subseteq> F"
  shows "(I' = I \<and> W' = W) \<or> (set I \<subset> set I' \<and> set I' \<subseteq> set I \<union> F)"
  using assms
proof (induction gs arbitrary: I W)
  case Nil
  then show ?case by simp
next
  case (Cons g gs)
  obtain I1 W1 where v: "visit_linked M uvl P f g (I, W) = (I1, W1)"
    by (cases "visit_linked M uvl P f g (I, W)")
  from Cons.prems v have f: "fold (visit_linked M uvl P f) gs (I1, W1) = (I', W')"
    by simp
  from Cons.prems have sub: "set gs \<subseteq> F" and gF: "g \<in> F" by auto
  from Cons.IH [OF f sub]
  have ih: "(I' = I1 \<and> W' = W1) \<or> (set I1 \<subset> set I' \<and> set I' \<subseteq> set I1 \<union> F)" .
  from visit_linked_cases [OF v]
  show ?case
  proof
    assume "I1 = I \<and> W1 = W"
    with ih show ?thesis by simp
  next
    assume a: "g \<notin> set I \<and> I1 = g # I"
    then have s: "set I1 = insert g (set I)" and n: "g \<notin> set I" by simp_all
    from ih show ?thesis
    proof
      assume "I' = I1 \<and> W' = W1"
      then have "set I' = insert g (set I)" using s by simp
      with n gF have "set I \<subset> set I' \<and> set I' \<subseteq> set I \<union> F" by (rule grow_insert)
      then show ?thesis ..
    next
      assume c: "set I1 \<subset> set I' \<and> set I' \<subseteq> set I1 \<union> F"
      from n gF s have "set I \<subset> set I1 \<and> set I1 \<subseteq> set I \<union> F" by (rule grow_insert)
      from this c have "set I \<subset> set I' \<and> set I' \<subseteq> set I \<union> F" by (rule grow_trans)
      then show ?thesis ..
    qed
  qed
qed

lemma link_faces_subset: "set (link_faces M e) \<subseteq> set (faces M)"
  by (auto simp: link_faces_def)

lemma fold_edges_grows:
  assumes "fold (\<lambda>edge. fold (visit_linked M uvl P f) (link_faces M edge)) es (I, W) = (I', W')"
  shows "(I' = I \<and> W' = W) \<or> (set I \<subset> set I' \<and> set I' \<subseteq> set I \<union> set (faces M))"
  using assms
proof (induction es arbitrary: I W)
  case Nil
  then show ?case by simp
next
  case (Cons e es)
  obtain I1 W1 where v: "fold (visit_linked M uvl P f) (link_faces M e) (I, W) = (I1, W1)"
    by (cases "fold (visit_linked M uvl P f) (link_faces M e) (I, W)")
  from Cons.prems v
  have f: "fold (\<lambda>edge. fold (visit_linked M uvl P f) (link_faces M edge)) es (I1, W1) = (I', W')"
    by simp
  from Cons.IH [OF f]
  have ih: "(I' = I1 \<and> W' = W1) \<or> (set I1 \<subset> set I' \<and> set I' \<subseteq> set I1 \<union> set (faces M))" .
  from fold_visit_grows [OF v link_faces_subset]
  have st: "(I1 = I \<and> W1 = W) \<or> (set I \<subset> set I1 \<and> set I1 \<subseteq> set I \<union> set (faces M))" .
  from st show ?case
  proof
    assume "I1 = I \<and> W1 = W"
    with ih show ?thesis by simp
  next
    assume b: "set I \<subset> set I1 \<and> set I1 \<subseteq> set I \<union> set (faces M)"
    from ih show ?thesis
    proof
      assume "I' = I1 \<and> W' = W1"
      with b show ?thesis by simp
    next
      assume "set I1 \<subset> set I' \<and> set I' \<subseteq> set I1 \<union> set (faces M)"
      with b have "set I \<subset> set I' \<and> set I' \<subseteq> set I \<union> set (faces M)" by (rule grow_trans)
      then show ?thesis ..
    qed
  qed
qed

lemma expand_face_grows:
  assumes "expand_face M uvl P f (I, W) = (I', W')"
  shows "(I' = I \<and> W' = W) \<or> (set I \<subset> set I' \<and> set I' \<subseteq> set I \<union> set (faces M))"
  using assms unfolding expand_face_def by (rule fold_edges_grows)

lemma card_unvisited_less:
  assumes "set I \<subset> set I'" and "set I' \<subseteq> set I \<union> F" and "finite F"
  shows "card (F - set I') < card (F - set I)"
proof (rule psubset_card_mono)
  show "finite (F - set I)" using assms(3) by simp
  from assms(1) obtain x where x: "x \<in> set I'" "x \<notin> set I" by auto
  with assms(2) have "x \<in> F" by auto
  with x have "x \<in> F - set I" "x \<notin> F - set I'" by auto
  moreover from assms(1) have "F - set I' \<subseteq> F - set I" by auto
  ultimately show "F - set I' \<subset> F - set I" by auto
qed

text \<open>The \<open>while to_process\<close> loop of \<open>get_uv_island\<close>.\<close>

function island_loop ::
  "'a bmesh_scheme \<Rightarrow> uv_layer \<Rightarrow> nat list \<Rightarrow> pick \<Rightarrow> nat list \<Rightarrow> nat list \<Rightarrow> nat list"
where
  "island_loop M uvl processed_faces pick island_faces to_process =
     (if to_process = [] then island_faces
      else case pop_face pick island_faces to_process of (face, rest) \<Rightarrow>
        (case expand_face M uvl processed_faces face (island_faces, rest) of
           (island_faces', to_process') \<Rightarrow>
             island_loop M uvl processed_faces pick island_faces' to_process'))"
  by pat_completeness auto

termination
proof (relation "measures [\<lambda>(M, uvl, P, pick, I, W). card (set (faces M) - set I),
                           \<lambda>(M, uvl, P, pick, I, W). length W]", goal_cases)
  case 1
  then show ?case by simp
next
  case (2 M uvl P pick I W face rest I' W')
  from 2(1) have "pick I W mod length W < length W" by simp
  moreover from 2(2) have "rest = take (pick I W mod length W) W @ drop (Suc (pick I W mod length W)) W"
    by (simp add: pop_face_def Let_def)
  ultimately have len: "length rest < length W" by simp
  from 2(3) have e: "expand_face M uvl P face (I, rest) = (I', W')" by simp
  from expand_face_grows [OF e] show ?case
  proof
    assume "I' = I \<and> W' = rest"
    with len show ?thesis by simp
  next
    assume "set I \<subset> set I' \<and> set I' \<subseteq> set I \<union> set (faces M)"
    then have "card (set (faces M) - set I') < card (set (faces M) - set I)"
      by (intro card_unvisited_less) auto
    then show ?thesis by simp
  qed
qed

declare island_loop.simps [simp del]

definition get_uv_island ::
  "'a bmesh_scheme \<Rightarrow> uv_layer \<Rightarrow> nat list \<Rightarrow> pick \<Rightarrow> nat \<Rightarrow> nat list"
where
  "get_uv_island M uvl processed_faces pick start_face =
     island_loop M uvl processed_faces pick [start_face] [start_face]"

text \<open>
  The loop \<open>for face in bm.faces\<close> that finds all islands. Its state is the list of the
  islands found so far and \<open>processed_faces\<close>. An island is kept here as its set of faces;
  the list \<open>island_uvs\<close> that the source appends to \<open>islands\<close> is \<open>island_uvs\<close> of it,
  the loop handles of all corners of all its faces.
\<close>

definition island_uvs :: "'a bmesh_scheme \<Rightarrow> nat list \<Rightarrow> loop list" where
  "island_uvs M island_faces = concat (map (face_loops M) island_faces)"

definition find_islands_step ::
  "'a bmesh_scheme \<Rightarrow> uv_layer \<Rightarrow> pick \<Rightarrow> nat \<Rightarrow> nat list list \<times> nat list \<Rightarrow> nat list list \<times> nat list"
where
  "find_islands_step M uvl pick face st =
     (case st of (islands, processed_faces) \<Rightarrow>
        if face_select M face \<and> face \<notin> set processed_faces
        then (let island_faces = get_uv_island M uvl processed_faces pick face
              in (islands @ [island_faces], List.union island_faces processed_faces))
        else (islands, processed_faces))"

definition find_islands :: "'a bmesh_scheme \<Rightarrow> uv_layer \<Rightarrow> pick \<Rightarrow> nat list list" where
  "find_islands M uvl pick = fst (fold (find_islands_step M uvl pick) (faces M) ([], []))"

text \<open>The list \<open>islands\<close> of the source: the coordinate handles of each island.\<close>

definition mesh_islands :: "'a bmesh_scheme \<Rightarrow> uv_layer \<Rightarrow> pick \<Rightarrow> loop list list" where
  "mesh_islands M uvl pick = map (island_uvs M) (find_islands M uvl pick)"

section \<open>Grid transform\<close>

text \<open>
  The bounding box starts as \<open>[inf, inf]\<close>, \<open>[-inf, -inf]\<close>, written \<open>None\<close>; the first
  coordinate replaces all four bounds, since \<open>min(inf, x) = x\<close> and \<open>max(-inf, x) = x\<close>.
\<close>

definition bbox_add :: "uv \<Rightarrow> (uv \<times> uv) option \<Rightarrow> (uv \<times> uv) option" where
  "bbox_add c b =
     (case b of
        None \<Rightarrow> Some (c, c)
      | Some (bbox_min, bbox_max) \<Rightarrow>
          Some ((min (fst bbox_min) (fst c), min (snd bbox_min) (snd c)),
                (max (fst bbox_max) (fst c), max (snd bbox_max) (snd c))))"

definition bbox :: "uv_layer \<Rightarrow> loop list \<Rightarrow> (uv \<times> uv) option" where
  "bbox uvl island = fold (\<lambda>l. bbox_add (uvl l)) island None"

definition bbox_center :: "uv \<times> uv \<Rightarrow> uv" where
  "bbox_center b = ((fst (fst b) + fst (snd b)) / 2, (snd (fst b) + snd (snd b)) / 2)"

text \<open>The loop \<open>for uv in island: uv.x += offset_x; uv.y += offset_y\<close>.\<close>

definition translate :: "real \<Rightarrow> real \<Rightarrow> loop list \<Rightarrow> uv_layer \<Rightarrow> uv_layer" where
  "translate offset_x offset_y island uvl =
     fold (\<lambda>l u. u(l := (fst (u l) + offset_x, snd (u l) + offset_y))) island uvl"

text \<open>
  One round of \<open>for island in islands\<close> of the snap operator. The box of an island
  without coordinates stays infinite; its centre is not a number and the loop over its
  coordinates has nothing to do.
\<close>

definition snap_island :: "real \<Rightarrow> real \<Rightarrow> loop list \<Rightarrow> uv_layer \<Rightarrow> uv_layer" where
  "snap_island target_x target_y island uvl =
     (case bbox uvl island of
        None \<Rightarrow> uvl
      | Some b \<Rightarrow>
          (let center_x = fst (bbox_center b);
               center_y = snd (bbox_center b);
               offset_x = target_x - center_x;
               offset_y = target_y - center_y
           in translate offset_x offset_y island uvl))"

text \<open>The body of \<open>for uv in island\<close> of the offset operator.\<close>

definition offset_uv ::
  "string \<Rightarrow> real \<Rightarrow> real \<Rightarrow> real \<Rightarrow> real \<Rightarrow> loop \<Rightarrow> uv_layer \<Rightarrow> uv_layer"
where
  "offset_uv direction center_x center_y clamped_offset_x clamped_offset_y l u =
     (if direction = ''up'' \<and> center_y + clamped_offset_y < 1
        then u(l := (fst (u l), snd (u l) + clamped_offset_y))
      else if direction = ''down'' \<and> center_y - clamped_offset_y > 0
        then u(l := (fst (u l), snd (u l) - clamped_offset_y))
      else if direction = ''right'' \<and> center_x + clamped_offset_x < 1
        then u(l := (fst (u l) + clamped_offset_x, snd (u l)))
      else if direction = ''left'' \<and> center_x - clamped_offset_x > 0
        then u(l := (fst (u l) - clamped_offset_x, snd (u l)))
      else u)"

text \<open>
  One round of \<open>for island in islands\<close> of the offset operator. \<open>1/prefs.grid_columns\<close>
  and \<open>1/prefs.grid_rows\<close> raise on zero. With no coordinate the centre is not a number,
  every guard is false, and there is no coordinate to move.
\<close>

definition offset_island :: "'a prefs_scheme \<Rightarrow> string \<Rightarrow> loop list \<Rightarrow> uv_layer \<Rightarrow> error + uv_layer" where
  "offset_island p direction island uvl =
     (if grid_columns p = 0 \<or> grid_rows p = 0 then Inl ZeroDivisionError
      else
        (let clamped_offset_x = max 0 (min 1 (1 / real_of_int (grid_columns p)));
             clamped_offset_y = max 0 (min 1 (1 / real_of_int (grid_rows p)))
         in Inr (case bbox uvl island of
                   None \<Rightarrow> uvl
                 | Some b \<Rightarrow>
                     fold (offset_uv direction (fst (bbox_center b)) (snd (bbox_center b))
                             clamped_offset_x clamped_offset_y) island uvl)))"

fun offset_islands :: "'a prefs_scheme \<Rightarrow> string \<Rightarrow> loop list list \<Rightarrow> uv_layer \<Rightarrow> error + uv_layer" where
  "offset_islands p direction [] uvl = Inr uvl"
| "offset_islands p direction (island # islands) uvl =
     (case offset_island p direction island uvl of
        Inl e \<Rightarrow> Inl e
      | Inr uvl' \<Rightarrow> offset_islands p direction islands uvl')"

section \<open>The snap operator\<close>

text \<open>
  Subscription of a Python list: positions \<open>0\<close> to \<open>len - 1\<close> from the front,
  \<open>-1\<close> to \<open>-len\<close> from the back, and \<open>IndexError\<close> for anything else.
\<close>

definition py_index :: "'a list \<Rightarrow> int \<Rightarrow> error + 'a" where
  "py_index xs i =
     (if 0 \<le> i \<and> i < int (length xs) then Inr (xs ! nat i)
      else if i < 0 \<and> - int (length xs) \<le> i then Inr (xs ! nat (int (length xs) + i))
      else Inl IndexError)"

text \<open>
  Lines 46 to 59 after the bounds check: the grid lists, row and column of the cell, and
  the centre of the cell.
\<close>

definition snap_target :: "int \<Rightarrow> int \<Rightarrow> int \<Rightarrow> error + uv" where
  "snap_target columns rows cell_index =
     (let grid_x = map (\<lambda>i. real_of_int i / real_of_int columns) [0..columns - 1];
          grid_y = map (\<lambda>i. 1 - real_of_int i / real_of_int rows) [0..rows - 1]
      in if columns = 0 then Inl ZeroDivisionError
         else
           (let row = cell_index div columns;
                column = cell_index mod columns
            in case py_index grid_x column of
                 Inl e \<Rightarrow> Inl e
               | Inr gx \<Rightarrow>
                   (let target_x = gx + 1 / real_of_int (2 * columns)
                    in case py_index grid_y row of
                         Inl e \<Rightarrow> Inl e
                       | Inr gy \<Rightarrow>
                           if rows = 0 then Inl ZeroDivisionError
                           else Inr (target_x, gy - 1 / real_of_int (2 * rows)))))"

definition channel_error :: "'a prefs_scheme \<Rightarrow> report" where
  "channel_error p =
     (''ERROR'', ''UV channel '' @ [CHR 0x27] @ uv_channel p @ [CHR 0x27] @ '' not found'')"

definition no_uvs_warning :: "loop list list \<Rightarrow> report list" where
  "no_uvs_warning islands =
     (if islands = [] then [(''WARNING'', ''No selected UVs found'')] else [])"

definition set_layer :: "bmesh \<Rightarrow> string \<Rightarrow> uv_layer \<Rightarrow> bmesh" where
  "set_layer bm name uvl = bm\<lparr>uv_layers := (uv_layers bm)(name \<mapsto> uvl)\<rparr>"

text \<open>The loop \<open>for island in islands\<close> of the snap operator.\<close>

definition snap_islands :: "real \<Rightarrow> real \<Rightarrow> loop list list \<Rightarrow> uv_layer \<Rightarrow> uv_layer" where
  "snap_islands target_x target_y islands uvl = fold (snap_island target_x target_y) islands uvl"

text \<open>
  The loop \<open>for obj in context.selected_objects\<close> of the snap operator. The calls that
  make an object active, switch the mode and tell the host that the mesh has changed do
  not touch topology, selection or coordinates and are left out.
\<close>

fun snap_objects ::
  "'a prefs_scheme \<Rightarrow> pick \<Rightarrow> real \<Rightarrow> real \<Rightarrow> obj list \<Rightarrow> scene \<Rightarrow> status \<times> report list \<times> scene"
where
  "snap_objects p pick target_x target_y [] sc = (FINISHED, [], sc)"
| "snap_objects p pick target_x target_y (ob # obs) sc =
     (if obj_type ob \<noteq> ''MESH'' then snap_objects p pick target_x target_y obs sc
      else
        (let bm = sc (data ob)
         in case uv_layers bm (uv_channel p) of
              None \<Rightarrow> (CANCELLED, [channel_error p], sc)
            | Some uvl \<Rightarrow>
                (let islands = mesh_islands bm uvl pick;
                     uvl' = snap_islands target_x target_y islands uvl;
                     sc' = sc(data ob := set_layer bm (uv_channel p) uvl')
                 in case snap_objects p pick target_x target_y obs sc' of
                      (st, reports, sc'') \<Rightarrow> (st, no_uvs_warning islands @ reports, sc''))))"

definition snap_execute ::
  "'a prefs_scheme \<Rightarrow> pick \<Rightarrow> int \<Rightarrow> obj list \<Rightarrow> scene \<Rightarrow> error + status \<times> report list \<times> scene"
where
  "snap_execute p pick cell_index selected_objects sc =
     (let columns = grid_columns p; rows = grid_rows p; max_cells = columns * rows
      in if cell_index \<ge> max_cells
         then Inr (CANCELLED, [(''ERROR'', ''Cell index out of bounds'')], sc)
         else case snap_target columns rows cell_index of
                Inl e \<Rightarrow> Inl e
              | Inr (target_x, target_y) \<Rightarrow>
                  Inr (snap_objects p pick target_x target_y selected_objects sc))"

section \<open>The offset operator\<close>

fun offset_objects ::
  "'a prefs_scheme \<Rightarrow> pick \<Rightarrow> string \<Rightarrow> obj list \<Rightarrow> scene \<Rightarrow> error + status \<times> report list \<times> scene"
where
  "offset_objects p pick direction [] sc = Inr (FINISHED, [], sc)"
| "offset_objects p pick direction (ob # obs) sc =
     (if obj_type ob \<noteq> ''MESH'' then offset_objects p pick direction obs sc
      else
        (let bm = sc (data ob)
         in case uv_layers bm (uv_channel p) of
              None \<Rightarrow> Inr (CANCELLED, [channel_error p], sc)
            | Some uvl \<Rightarrow>
                (let islands = mesh_islands bm uvl pick
                 in case offset_islands p direction islands uvl of
                      Inl e \<Rightarrow> Inl e
                    | Inr uvl' \<Rightarrow>
                        (case offset_objects p pick direction obs
                                (sc(data ob := set_layer bm (uv_channel p) uvl')) of
                           Inl e \<Rightarrow> Inl e
                         | Inr (st, reports, sc'') \<Rightarrow>
                             Inr (st, no_uvs_warning islands @ reports, sc'')))))"

definition offset_execute ::
  "'a prefs_scheme \<Rightarrow> pick \<Rightarrow> string \<Rightarrow> obj list \<Rightarrow> scene \<Rightarrow> error + status \<times> report list \<times> scene"
where
  "offset_execute p pick direction selected_objects sc =
     offset_objects p pick direction selected_objects sc"

section \<open>Example meshes\<close>

text \<open>A layer given by the coordinates of each face's corners.\<close>

definition layer_of :: "uv list list \<Rightarrow> uv_layer" where
  "layer_of corners l = corners ! fst l ! snd l"

definition pop_first :: pick where
  "pop_first island_faces to_process = 0"


text \<open>
  Three selected triangles around one vertex; each two of them share an edge. In UV space
  face 0 touches face 1 and face 1 touches face 2, while no corner of face 0 is near a
  corner of face 2: the edge between faces 0 and 2 is a seam.
\<close>

definition fan_layer :: uv_layer where
  "fan_layer = layer_of [[(0, 0), (0.2, 0), (0, 0.2)],
                         [(0.2, 0), (0.4, 0), (0.2, 0.2)],
                         [(0.4, 0), (0.6, 0), (0.4, 0.2)]]"

definition fan_mesh :: bmesh where
  "fan_mesh = \<lparr>faces = [0, 1, 2], face_select = (\<lambda>f. True),
                face_edges = (\<lambda>f. [[0, 2, 3], [0, 1, 4], [1, 2, 5]] ! f),
                face_len = (\<lambda>f. 3),
                uv_layers = [''ch3'' \<mapsto> fan_layer]\<rparr>"

text \<open>
  Three triangles in a strip. Faces 0 and 1 are selected and share edge 0, which is a
  seam; face 2 is not selected and lies on top of face 0 in UV space.
\<close>

definition seam_layer :: uv_layer where
  "seam_layer = layer_of [[(0, 0), (0.2, 0), (0, 0.2)],
                          [(0.5, 0.5), (0.7, 0.5), (0.7, 0.7)],
                          [(0, 0), (0.2, 0), (0.2, 0.2)]]"

definition seam_mesh :: bmesh where
  "seam_mesh = \<lparr>faces = [0, 1, 2], face_select = (\<lambda>f. f < 2),
                 face_edges = (\<lambda>f. [[0, 1, 2], [0, 3, 4], [1, 5, 6]] ! f),
                 face_len = (\<lambda>f. 3),
                 uv_layers = [''ch3'' \<mapsto> seam_layer]\<rparr>"

text \<open>A mesh that has a UV layer, but not the configured one.\<close>

definition other_mesh :: bmesh where
  "other_mesh = \<lparr>faces = [0], face_select = (\<lambda>f. True),
                  face_edges = (\<lambda>f. [0, 1, 2]),
                  face_len = (\<lambda>f. 3),
                  uv_layers = [''UVMap'' \<mapsto> seam_layer]\<rparr>"

definition demo_prefs :: prefs where
  "demo_prefs = \<lparr>uv_channel = ''ch3'', grid_columns = 4, grid_rows = 2\<rparr>"

definition demo_scene :: scene where
  "demo_scene m = (if m = 0 then other_mesh else if m = 1 then seam_mesh else fan_mesh)"

definition mesh_object :: "nat \<Rightarrow> obj" where
  "mesh_object m = \<lparr>obj_type = ''MESH'', data = m\<rparr>"





section \<open>The grid transform on one island\<close>

definition shift :: "real \<Rightarrow> real \<Rightarrow> uv \<Rightarrow> uv" where
  "shift ox oy c = (fst c + ox, snd c + oy)"


lemma uv_close_code [code]:
  "uv_close a b \<longleftrightarrow> (fst a - fst b)\<^sup>2 + (snd a - snd b)\<^sup>2 < 1 / 1000000"
proof -
  have s: "sqrt (1 / 1000000) = (1 / 1000 :: real)"
    by (rule real_sqrt_unique) (simp_all add: power2_eq_square)
  have "vec_length (vec_sub a b) < sqrt (1 / 1000000)
        \<longleftrightarrow> (fst a - fst b)\<^sup>2 + (snd a - snd b)\<^sup>2 < 1 / 1000000"
    unfolding vec_length_def vec_sub_def fst_conv snd_conv by (rule real_sqrt_less_iff)
  moreover have "(1 / 10 ^ 3 :: real) = 1 / 1000" by simp
  ultimately show ?thesis unfolding uv_close_def s by (simp only:)
qed

lemma translate_notin: "l \<notin> set island \<Longrightarrow> translate ox oy island uvl l = uvl l"
  unfolding translate_def by (induction island arbitrary: uvl) auto

lemma translate_in:
  "distinct island \<Longrightarrow> l \<in> set island \<Longrightarrow> translate ox oy island uvl l = shift ox oy (uvl l)"
proof (induction island arbitrary: uvl)
  case Nil
  then show ?case by simp
next
  case (Cons a island)
  show ?case
  proof (cases "l = a")
    case True
    with Cons.prems have "l \<notin> set island" by simp
    then have "translate ox oy island (uvl(a := shift ox oy (uvl a))) l = (uvl(a := shift ox oy (uvl a))) l"
      by (rule translate_notin)
    with True show ?thesis by (simp add: translate_def shift_def)
  next
    case False
    with Cons.prems have "l \<in> set island" "distinct island" by simp_all
    from Cons.IH [OF this(2) this(1)] False show ?thesis
      by (simp add: translate_def shift_def)
  qed
qed

lemma translate_zero: "translate 0 0 ls u = u"
  unfolding translate_def by (induction ls arbitrary: u) simp_all











lemma snap_island_notin: "l \<notin> set ls \<Longrightarrow> snap_island tx ty ls u l = u l"
  by (simp add: snap_island_def Let_def translate_notin split: option.split)

lemma snap_island_in:
  assumes "distinct ls" and "l \<in> set ls" and "bbox u ls = Some b"
  shows "snap_island tx ty ls u l = shift (tx - fst (bbox_center b)) (ty - snd (bbox_center b)) (u l)"
  using assms by (simp add: snap_island_def Let_def translate_in)



section \<open>The search for one island\<close>

text \<open>
  What \<open>visit_linked\<close> asks of a linked face besides not being in the island yet, and
  the relation that one expansion step follows.
\<close>

definition admits :: "'a bmesh_scheme \<Rightarrow> uv_layer \<Rightarrow> nat list \<Rightarrow> nat \<Rightarrow> nat \<Rightarrow> bool" where
  "admits M uvl P f g \<longleftrightarrow> face_select M g \<and> g \<notin> set P \<and> are_uvs_connected M uvl f g"

definition linked :: "'a bmesh_scheme \<Rightarrow> uv_layer \<Rightarrow> nat list \<Rightarrow> (nat \<times> nat) set" where
  "linked M uvl P =
     {(f, g). (\<exists>e \<in> set (face_edges M f). g \<in> set (link_faces M e)) \<and> admits M uvl P f g}"

lemma visit_linked_set:
  assumes "visit_linked M uvl P f g (I, W) = (I', W')"
  shows "set I' = set I \<union> {x \<in> {g}. admits M uvl P f x}"
    and "set W' = set W \<union> {x \<in> {g}. admits M uvl P f x \<and> x \<notin> set I}"
    and "distinct I \<Longrightarrow> distinct I'"
  using assms by (auto simp: visit_linked_def admits_def split: if_splits)

lemma fold_visit_set:
  assumes "fold (visit_linked M uvl P f) gs (I, W) = (I', W')"
  shows "set I' = set I \<union> {x \<in> set gs. admits M uvl P f x}
       \<and> set W' = set W \<union> {x \<in> set gs. admits M uvl P f x \<and> x \<notin> set I}
       \<and> (distinct I \<longrightarrow> distinct I')"
  using assms
proof (induction gs arbitrary: I W)
  case Nil
  then show ?case by simp
next
  case (Cons g gs)
  obtain I1 W1 where v: "visit_linked M uvl P f g (I, W) = (I1, W1)"
    by (cases "visit_linked M uvl P f g (I, W)")
  from Cons.prems v have f: "fold (visit_linked M uvl P f) gs (I1, W1) = (I', W')"
    by simp
  note ih = Cons.IH [OF f]
  note st = visit_linked_set [OF v]
  have a: "set I' = set I \<union> {x \<in> set (g # gs). admits M uvl P f x}"
    using ih st(1) by auto
  have b: "set W' = set W \<union> {x \<in> set (g # gs). admits M uvl P f x \<and> x \<notin> set I}"
    using ih st(1) st(2) by auto
  have c: "distinct I \<longrightarrow> distinct I'"
    using ih st(3) by blast
  from a b c show ?case by blast
qed

lemma fold_edges_set:
  assumes "fold (\<lambda>edge. fold (visit_linked M uvl P f) (link_faces M edge)) es (I, W) = (I', W')"
  shows "set I' = set I \<union> {x. (\<exists>e \<in> set es. x \<in> set (link_faces M e)) \<and> admits M uvl P f x}
       \<and> set W' = set W \<union> {x. (\<exists>e \<in> set es. x \<in> set (link_faces M e)) \<and> admits M uvl P f x \<and> x \<notin> set I}
       \<and> (distinct I \<longrightarrow> distinct I')"
  using assms
proof (induction es arbitrary: I W)
  case Nil
  then show ?case by simp
next
  case (Cons e es)
  obtain I1 W1 where v: "fold (visit_linked M uvl P f) (link_faces M e) (I, W) = (I1, W1)"
    by (cases "fold (visit_linked M uvl P f) (link_faces M e) (I, W)")
  from Cons.prems v
  have f: "fold (\<lambda>edge. fold (visit_linked M uvl P f) (link_faces M edge)) es (I1, W1) = (I', W')"
    by simp
  note ih = Cons.IH [OF f]
  note st = fold_visit_set [OF v]
  have a: "set I' = set I \<union> {x. (\<exists>e \<in> set (e # es). x \<in> set (link_faces M e)) \<and> admits M uvl P f x}"
    using ih st by auto
  have b: "set W' = set W \<union> {x. (\<exists>e \<in> set (e # es). x \<in> set (link_faces M e)) \<and> admits M uvl P f x \<and> x \<notin> set I}"
    using ih st by auto
  have c: "distinct I \<longrightarrow> distinct I'"
    using ih st by blast
  from a b c show ?case by blast
qed

lemma expand_face_set:
  assumes "expand_face M uvl P f (I, W) = (I', W')"
  shows "set I' = set I \<union> linked M uvl P `` {f}"
    and "set W' = set W \<union> (linked M uvl P `` {f} - set I)"
    and "distinct I \<Longrightarrow> distinct I'"
proof -
  note r = fold_edges_set [OF assms [unfolded expand_face_def]]
  have l: "linked M uvl P `` {f} = {x. (\<exists>e \<in> set (face_edges M f). x \<in> set (link_faces M e)) \<and> admits M uvl P f x}"
    by (auto simp: linked_def)
  from r l show "set I' = set I \<union> linked M uvl P `` {f}" by simp
  from r l show "set W' = set W \<union> (linked M uvl P `` {f} - set I)" by auto
  from r show "distinct I \<Longrightarrow> distinct I'" by simp
qed

lemma pop_face_set:
  assumes "W \<noteq> []" and "pop_face pick I W = (f, rest)"
  shows "f \<in> set W" and "set rest \<subseteq> set W" and "set W \<subseteq> insert f (set rest)"
proof -
  define i where "i = pick I W mod length W"
  from assms(1) have i: "i < length W" by (simp add: i_def)
  from assms(2) have f: "f = W ! i" and r: "rest = take i W @ drop (Suc i) W"
    by (simp_all add: pop_face_def Let_def i_def)
  from i f show "f \<in> set W" by simp
  from i have w: "W = take i W @ W ! i # drop (Suc i) W" by (rule id_take_nth_drop)
  have "set W = set (take i W) \<union> insert (W ! i) (set (drop (Suc i) W))"
    by (subst w) simp
  with r f show "set rest \<subseteq> set W" and "set W \<subseteq> insert f (set rest)" by auto
qed


lemma closed_reach:
  assumes "s \<in> A" and "\<And>f g. f \<in> A \<Longrightarrow> (f, g) \<in> r \<Longrightarrow> g \<in> A"
  shows "r\<^sup>* `` {s} \<subseteq> A"
proof
  fix g assume "g \<in> r\<^sup>* `` {s}"
  then have "(s, g) \<in> r\<^sup>*" by simp
  then show "g \<in> A"
    by (induction rule: rtrancl_induct) (use assms in blast)+
qed

lemma island_loop_set:
  assumes "s \<in> set I" and "set W \<subseteq> set I" and "set I \<subseteq> (linked M uvl P)\<^sup>* `` {s}"
    and "\<And>f g. f \<in> set I \<Longrightarrow> f \<notin> set W \<Longrightarrow> (f, g) \<in> linked M uvl P \<Longrightarrow> g \<in> set I"
  shows "set (island_loop M uvl P pick I W) = (linked M uvl P)\<^sup>* `` {s}"
  using assms
proof (induction M uvl P pick I W rule: island_loop.induct)
  case (1 M uvl P pick I W)
  show ?case
  proof (cases "W = []")
    case True
    with "1.prems"(4) have "\<And>f g. f \<in> set I \<Longrightarrow> (f, g) \<in> linked M uvl P \<Longrightarrow> g \<in> set I"
      by simp
    with "1.prems"(1) have "(linked M uvl P)\<^sup>* `` {s} \<subseteq> set I" by (rule closed_reach)
    with "1.prems"(3) True show ?thesis by (simp add: island_loop.simps)
  next
    case False
    obtain f rest where p: "pop_face pick I W = (f, rest)" by (cases "pop_face pick I W")
    obtain I' W' where e: "expand_face M uvl P f (I, rest) = (I', W')"
      by (cases "expand_face M uvl P f (I, rest)")
    note ps = pop_face_set [OF False p]
    note es = expand_face_set [OF e]
    have fI: "f \<in> set I" using ps(1) "1.prems"(2) by blast
    have a: "s \<in> set I'" using es(1) "1.prems"(1) by simp
    have b: "set W' \<subseteq> set I'" using es(1) es(2) ps(2) "1.prems"(2) by blast
    have c: "set I' \<subseteq> (linked M uvl P)\<^sup>* `` {s}"
    proof
      fix g assume "g \<in> set I'"
      with es(1) consider "g \<in> set I" | "(f, g) \<in> linked M uvl P" by blast
      then show "g \<in> (linked M uvl P)\<^sup>* `` {s}"
      proof cases
        case 1
        with "1.prems"(3) show ?thesis by blast
      next
        case 2
        from fI "1.prems"(3) have "(s, f) \<in> (linked M uvl P)\<^sup>*" by blast
        from this 2 have "(s, g) \<in> (linked M uvl P)\<^sup>*" by (rule rtrancl_into_rtrancl)
        then show ?thesis by simp
      qed
    qed
    have d: "g \<in> set I'" if h: "h \<in> set I'" "h \<notin> set W'" "(h, g) \<in> linked M uvl P" for h g
    proof -
      from h(1) h(2) es(1) es(2) have hI: "h \<in> set I" and hr: "h \<notin> set rest" by blast+
      show ?thesis
      proof (cases "h \<in> set W")
        case True
        with ps(3) hr have "h = f" by blast
        with h(3) es(1) show ?thesis by blast
      next
        case False
        from "1.prems"(4) [OF hI False h(3)] es(1) show ?thesis by blast
      qed
    qed
    have "set (island_loop M uvl P pick I' W') = (linked M uvl P)\<^sup>* `` {s}"
      by (rule "1.IH" [OF False p [symmetric] e [symmetric] a b c]) (rule d)
    moreover have "island_loop M uvl P pick I W = island_loop M uvl P pick I' W'"
      using False p e by (subst island_loop.simps) simp
    ultimately show ?thesis by simp
  qed
qed

lemma island_loop_distinct:
  "distinct I \<Longrightarrow> distinct (island_loop M uvl P pick I W)"
proof (induction M uvl P pick I W rule: island_loop.induct)
  case (1 M uvl P pick I W)
  show ?case
  proof (cases "W = []")
    case True
    with "1.prems" show ?thesis by (simp add: island_loop.simps)
  next
    case False
    obtain f rest where p: "pop_face pick I W = (f, rest)" by (cases "pop_face pick I W")
    obtain I' W' where e: "expand_face M uvl P f (I, rest) = (I', W')"
      by (cases "expand_face M uvl P f (I, rest)")
    from expand_face_set(3) [OF e "1.prems"] have "distinct I'" .
    from "1.IH" [OF False p [symmetric] e [symmetric] this]
    have "distinct (island_loop M uvl P pick I' W')" .
    moreover have "island_loop M uvl P pick I W = island_loop M uvl P pick I' W'"
      using False p e by (subst island_loop.simps) simp
    ultimately show ?thesis by simp
  qed
qed

lemma get_uv_island_set:
  "set (get_uv_island M uvl P pick s) = (linked M uvl P)\<^sup>* `` {s}"
  unfolding get_uv_island_def by (rule island_loop_set) simp_all

lemma get_uv_island_distinct: "distinct (get_uv_island M uvl P pick s)"
  unfolding get_uv_island_def by (rule island_loop_distinct) simp


text \<open>
  The relation of the specification: two faces are UV-connected when they share a mesh edge
  and some corner of one is closer than 0.001 to some corner of the other. The graph joins
  the selected faces of the mesh that are UV-connected, and the component of a face is
  what the graph reaches from it.
\<close>

definition shares_edge :: "'a bmesh_scheme \<Rightarrow> nat \<Rightarrow> nat \<Rightarrow> bool" where
  "shares_edge M f g \<longleftrightarrow> (\<exists>e \<in> set (face_edges M f). e \<in> set (face_edges M g))"

definition uv_connected :: "'a bmesh_scheme \<Rightarrow> uv_layer \<Rightarrow> nat \<Rightarrow> nat \<Rightarrow> bool" where
  "uv_connected M uvl f g \<longleftrightarrow>
     shares_edge M f g \<and>
     (\<exists>l1 \<in> set (face_loops M f). \<exists>l2 \<in> set (face_loops M g).
        vec_length (vec_sub (uvl l1) (uvl l2)) < 0.001)"

definition selected_faces :: "'a bmesh_scheme \<Rightarrow> nat set" where
  "selected_faces M = {f \<in> set (faces M). face_select M f}"

definition uv_graph :: "'a bmesh_scheme \<Rightarrow> uv_layer \<Rightarrow> (nat \<times> nat) set" where
  "uv_graph M uvl =
     {(f, g). f \<in> selected_faces M \<and> g \<in> selected_faces M \<and> uv_connected M uvl f g}"

definition component :: "'a bmesh_scheme \<Rightarrow> uv_layer \<Rightarrow> nat \<Rightarrow> nat set" where
  "component M uvl f = (uv_graph M uvl)\<^sup>* `` {f}"

lemma vec_length_sub_commute: "vec_length (vec_sub a b) = vec_length (vec_sub b a)"
  by (simp add: vec_length_def vec_sub_def power2_commute)

lemma uv_connected_sym: "uv_connected M uvl f g \<Longrightarrow> uv_connected M uvl g f"
  unfolding uv_connected_def shares_edge_def
  using vec_length_sub_commute by metis

lemma sym_uv_graph: "sym (uv_graph M uvl)"
  by (rule symI) (auto simp: uv_graph_def intro: uv_connected_sym)

lemma are_uvs_connected_iff:
  "are_uvs_connected M uvl f g \<longleftrightarrow>
     (\<exists>l1 \<in> set (face_loops M f). \<exists>l2 \<in> set (face_loops M g).
        vec_length (vec_sub (uvl l1) (uvl l2)) < 0.001)"
  by (simp add: are_uvs_connected_def list_ex_iff uv_close_def)

lemma linked_iff:
  "(f, g) \<in> linked M uvl P \<longleftrightarrow>
     g \<in> selected_faces M \<and> g \<notin> set P \<and> uv_connected M uvl f g"
  by (auto simp: linked_def admits_def link_faces_def selected_faces_def uv_connected_def
      shares_edge_def are_uvs_connected_iff)

lemma component_selected:
  assumes "s \<in> selected_faces M" and "g \<in> component M uvl s"
  shows "g \<in> selected_faces M"
proof -
  from assms(2) have "(s, g) \<in> (uv_graph M uvl)\<^sup>*" by (simp add: component_def)
  then show ?thesis
    by (induction rule: rtrancl_induct) (use assms(1) in \<open>auto simp: uv_graph_def\<close>)
qed

lemma component_refl: "f \<in> component M uvl f"
  by (simp add: component_def)


text \<open>The faces reached from an unprocessed start face are unprocessed.\<close>

lemma reach_unprocessed:
  assumes "s \<notin> set P" and "(s, g) \<in> (linked M uvl P)\<^sup>*"
  shows "g \<notin> set P"
  using assms(2) assms(1) by (cases rule: rtranclE) (auto simp: linked_iff)

text \<open>
  When the processed faces are closed under the graph, the search from an unprocessed
  selected face finds its component.
\<close>

lemma reach_component:
  assumes sel: "s \<in> selected_faces M" and new: "s \<notin> set P"
    and closed: "\<And>f g. f \<in> set P \<Longrightarrow> (f, g) \<in> uv_graph M uvl \<Longrightarrow> g \<in> set P"
  shows "(linked M uvl P)\<^sup>* `` {s} = component M uvl s"
proof (rule set_eqI)
  fix g
  show "g \<in> (linked M uvl P)\<^sup>* `` {s} \<longleftrightarrow> g \<in> component M uvl s"
  proof
    assume "g \<in> (linked M uvl P)\<^sup>* `` {s}"
    then have "(s, g) \<in> (linked M uvl P)\<^sup>*" by simp
    then have "(s, g) \<in> (uv_graph M uvl)\<^sup>* \<and> g \<in> selected_faces M"
    proof (induction rule: rtrancl_induct)
      case base
      from sel show ?case by simp
    next
      case (step f g)
      from step.hyps(2) have "g \<in> selected_faces M" "uv_connected M uvl f g"
        by (simp_all add: linked_iff)
      with step.IH have "(f, g) \<in> uv_graph M uvl" by (simp add: uv_graph_def)
      with step.IH \<open>g \<in> selected_faces M\<close> show ?case by (blast intro: rtrancl_into_rtrancl)
    qed
    then show "g \<in> component M uvl s" by (simp add: component_def)
  next
    assume "g \<in> component M uvl s"
    then have "(s, g) \<in> (uv_graph M uvl)\<^sup>*" by (simp add: component_def)
    then have "(s, g) \<in> (linked M uvl P)\<^sup>* \<and> g \<notin> set P"
    proof (induction rule: rtrancl_induct)
      case base
      from new show ?case by simp
    next
      case (step f g)
      from step.hyps(2) have gf: "(g, f) \<in> uv_graph M uvl"
        using sym_uv_graph by (blast dest: symD)
      have "g \<notin> set P"
      proof
        assume "g \<in> set P"
        from closed [OF this gf] step.IH show False by simp
      qed
      moreover from step.hyps(2) have "g \<in> selected_faces M" "uv_connected M uvl f g"
        by (simp_all add: uv_graph_def)
      ultimately have "(f, g) \<in> linked M uvl P" by (simp add: linked_iff)
      with step.IH \<open>g \<notin> set P\<close> show ?case by (blast intro: rtrancl_into_rtrancl)
    qed
    then show "g \<in> (linked M uvl P)\<^sup>* `` {s}" by simp
  qed
qed

section \<open>The loop over the faces\<close>

text \<open>
  The invariant of \<open>for face in bm.faces\<close>, after the faces in \<open>seen\<close>: the processed
  faces are the faces of the islands found, every island is the component of a selected
  face, every selected face seen is processed, and no face occurs twice.
\<close>

definition islands_inv ::
  "'a bmesh_scheme \<Rightarrow> uv_layer \<Rightarrow> nat set \<Rightarrow> nat list list \<times> nat list \<Rightarrow> bool"
where
  "islands_inv M uvl seen st \<longleftrightarrow>
     (case st of (islands, P) \<Rightarrow>
        set P = \<Union> (set ` set islands) \<and>
        (\<forall>I \<in> set islands. \<exists>s \<in> selected_faces M. set I = component M uvl s) \<and>
        (\<forall>f \<in> seen. face_select M f \<longrightarrow> f \<in> set P) \<and>
        distinct (concat islands))"

lemma islands_inv_closed:
  assumes "islands_inv M uvl seen (islands, P)" and "f \<in> set P" and "(f, g) \<in> uv_graph M uvl"
  shows "g \<in> set P"
proof -
  from assms(1) assms(2) obtain I where I: "I \<in> set islands" "f \<in> set I"
    by (auto simp: islands_inv_def)
  with assms(1) obtain s where s: "set I = component M uvl s"
    by (auto simp: islands_inv_def)
  with I(2) have "(s, f) \<in> (uv_graph M uvl)\<^sup>*" by (simp add: component_def)
  from this assms(3) have "(s, g) \<in> (uv_graph M uvl)\<^sup>*" by (rule rtrancl_into_rtrancl)
  with s have "g \<in> set I" by (simp add: component_def)
  with I(1) assms(1) show ?thesis by (auto simp: islands_inv_def)
qed

lemma islands_inv_step:
  assumes inv: "islands_inv M uvl seen (islands, P)" and face: "face \<in> set (faces M)"
  shows "islands_inv M uvl (insert face seen) (find_islands_step M uvl pick face (islands, P))"
proof (cases "face_select M face \<and> face \<notin> set P")
  case False
  then have "find_islands_step M uvl pick face (islands, P) = (islands, P)"
    by (auto simp: find_islands_step_def)
  with inv False show ?thesis by (auto simp: islands_inv_def)
next
  case True
  define I where "I = get_uv_island M uvl P pick face"
  from True have st: "find_islands_step M uvl pick face (islands, P) = (islands @ [I], List.union I P)"
    by (simp add: find_islands_step_def I_def Let_def)
  from True face have sel: "face \<in> selected_faces M" by (simp add: selected_faces_def)
  from True have new: "face \<notin> set P" by simp
  have reach: "set I = (linked M uvl P)\<^sup>* `` {face}"
    unfolding I_def by (rule get_uv_island_set)
  have comp: "set I = component M uvl face"
    unfolding reach using sel new by (rule reach_component) (rule islands_inv_closed [OF inv])
  have disj: "set I \<inter> set P = {}"
    using reach reach_unprocessed [OF new] by auto
  have dist: "distinct I" unfolding I_def by (rule get_uv_island_distinct)
  from inv have P: "set P = \<Union> (set ` set islands)" by (simp add: islands_inv_def)
  have a: "set (List.union I P) = \<Union> (set ` set (islands @ [I]))"
    using P by auto
  have b: "\<forall>J \<in> set (islands @ [I]). \<exists>s \<in> selected_faces M. set J = component M uvl s"
    using inv comp sel by (auto simp: islands_inv_def)
  have c: "\<forall>f \<in> insert face seen. face_select M f \<longrightarrow> f \<in> set (List.union I P)"
    using inv comp component_refl [of face M uvl] by (auto simp: islands_inv_def)
  have "set (concat islands) = set P" using P by auto
  with disj dist inv have d: "distinct (concat (islands @ [I]))"
    by (auto simp: islands_inv_def)
  from a b c d show ?thesis unfolding st islands_inv_def by simp
qed

lemma islands_inv_fold:
  assumes "islands_inv M uvl seen st" and "set fs \<subseteq> set (faces M)"
  shows "islands_inv M uvl (seen \<union> set fs) (fold (find_islands_step M uvl pick) fs st)"
  using assms
proof (induction fs arbitrary: seen st)
  case Nil
  then show ?case by simp
next
  case (Cons f fs)
  obtain islands P where st: "st = (islands, P)" by (cases st)
  from Cons.prems have "islands_inv M uvl (insert f seen) (find_islands_step M uvl pick f st)"
    unfolding st by (intro islands_inv_step) simp_all
  moreover from Cons.prems have "set fs \<subseteq> set (faces M)" by simp
  ultimately have "islands_inv M uvl (insert f seen \<union> set fs)
      (fold (find_islands_step M uvl pick) fs (find_islands_step M uvl pick f st))"
    by (rule Cons.IH)
  then show ?case by simp
qed

lemma find_islands_inv:
  "\<exists>P. islands_inv M uvl (set (faces M)) (find_islands M uvl pick, P)"
proof -
  have "islands_inv M uvl {} ([], [])" by (simp add: islands_inv_def)
  then have "islands_inv M uvl ({} \<union> set (faces M))
      (fold (find_islands_step M uvl pick) (faces M) ([], []))"
    by (rule islands_inv_fold) simp
  then show ?thesis
    by (cases "fold (find_islands_step M uvl pick) (faces M) ([], [])")
       (auto simp: find_islands_def)
qed


lemma find_islands_component:
  assumes "I \<in> set (find_islands M uvl pick)"
  shows "\<exists>s \<in> selected_faces M. set I = component M uvl s"
  using find_islands_inv [of M uvl pick] assms by (auto simp: islands_inv_def)

lemma find_islands_cover:
  "\<Union> (set ` set (find_islands M uvl pick)) = selected_faces M"
proof -
  obtain P where inv: "islands_inv M uvl (set (faces M)) (find_islands M uvl pick, P)"
    using find_islands_inv by blast
  show ?thesis
  proof (rule set_eqI)
    fix f
    show "f \<in> \<Union> (set ` set (find_islands M uvl pick)) \<longleftrightarrow> f \<in> selected_faces M"
    proof
      assume "f \<in> \<Union> (set ` set (find_islands M uvl pick))"
      then obtain I where I: "I \<in> set (find_islands M uvl pick)" "f \<in> set I" by blast
      from find_islands_component [OF I(1)] obtain s
        where "s \<in> selected_faces M" "set I = component M uvl s" by blast
      with I(2) show "f \<in> selected_faces M" by (auto intro: component_selected)
    next
      assume "f \<in> selected_faces M"
      with inv have "f \<in> set P" by (auto simp: islands_inv_def selected_faces_def)
      with inv show "f \<in> \<Union> (set ` set (find_islands M uvl pick))"
        by (auto simp: islands_inv_def)
    qed
  qed
qed




section \<open>The transform on all islands of a mesh\<close>

text \<open>
  Both operators add one vector to every coordinate of an island. The vector of the snap
  operator leads from the centre of the box to the target; the vector of the offset
  operator is one grid step in the direction asked for, or zero when the guard fails.
\<close>

definition offset_vector :: "string \<Rightarrow> real \<Rightarrow> real \<Rightarrow> real \<Rightarrow> real \<Rightarrow> uv" where
  "offset_vector direction cx cy dx dy =
     (if direction = ''up'' \<and> cy + dy < 1 then (0, dy)
      else if direction = ''down'' \<and> cy - dy > 0 then (0, - dy)
      else if direction = ''right'' \<and> cx + dx < 1 then (dx, 0)
      else if direction = ''left'' \<and> cx - dx > 0 then (- dx, 0)
      else (0, 0))"

definition snap_vector :: "real \<Rightarrow> real \<Rightarrow> uv_layer \<Rightarrow> loop list \<Rightarrow> uv" where
  "snap_vector tx ty u ls =
     (case bbox u ls of
        None \<Rightarrow> (0, 0)
      | Some b \<Rightarrow> (tx - fst (bbox_center b), ty - snd (bbox_center b)))"

definition step_vector :: "'a prefs_scheme \<Rightarrow> string \<Rightarrow> uv_layer \<Rightarrow> loop list \<Rightarrow> uv" where
  "step_vector p direction u ls =
     (case bbox u ls of
        None \<Rightarrow> (0, 0)
      | Some b \<Rightarrow>
          offset_vector direction (fst (bbox_center b)) (snd (bbox_center b))
            (max 0 (min 1 (1 / real_of_int (grid_columns p))))
            (max 0 (min 1 (1 / real_of_int (grid_rows p)))))"

definition move_islands :: "(uv_layer \<Rightarrow> loop list \<Rightarrow> uv) \<Rightarrow> loop list list \<Rightarrow> uv_layer \<Rightarrow> uv_layer" where
  "move_islands vec iss u = fold (\<lambda>ls u. translate (fst (vec u ls)) (snd (vec u ls)) ls u) iss u"

lemma offset_uv_shift:
  "offset_uv d cx cy dx dy l u
     = u(l := (fst (u l) + fst (offset_vector d cx cy dx dy),
               snd (u l) + snd (offset_vector d cx cy dx dy)))"
  by (simp add: offset_uv_def offset_vector_def)

lemma fold_offset_uv:
  "fold (offset_uv d cx cy dx dy) ls u
     = translate (fst (offset_vector d cx cy dx dy)) (snd (offset_vector d cx cy dx dy)) ls u"
proof -
  have "offset_uv d cx cy dx dy
      = (\<lambda>l u. u(l := (fst (u l) + fst (offset_vector d cx cy dx dy),
                         snd (u l) + snd (offset_vector d cx cy dx dy))))"
    by (rule ext, rule ext, rule offset_uv_shift)
  then show ?thesis by (simp only: translate_def)
qed

lemma snap_island_translate:
  "snap_island tx ty ls u
     = translate (fst (snap_vector tx ty u ls)) (snd (snap_vector tx ty u ls)) ls u"
  by (cases "bbox u ls") (simp_all add: snap_island_def snap_vector_def Let_def translate_zero)

lemma offset_island_translate:
  assumes "grid_columns p \<noteq> 0" and "grid_rows p \<noteq> 0"
  shows "offset_island p d ls u
     = Inr (translate (fst (step_vector p d u ls)) (snd (step_vector p d u ls)) ls u)"
  using assms
  by (cases "bbox u ls")
     (simp_all add: offset_island_def step_vector_def Let_def translate_zero fold_offset_uv)

lemma snap_islands_move: "snap_islands tx ty iss u = move_islands (snap_vector tx ty) iss u"
proof -
  have "snap_island tx ty = (\<lambda>ls u. translate (fst (snap_vector tx ty u ls)) (snd (snap_vector tx ty u ls)) ls u)"
    by (rule ext, rule ext, rule snap_island_translate)
  then show ?thesis by (simp only: snap_islands_def move_islands_def)
qed

lemma offset_islands_move:
  assumes "grid_columns p \<noteq> 0" and "grid_rows p \<noteq> 0"
  shows "offset_islands p d iss u = Inr (move_islands (step_vector p d) iss u)"
proof (induction iss arbitrary: u)
  case Nil
  show ?case by (simp add: move_islands_def)
next
  case (Cons ls iss)
  show ?case
    by (simp add: offset_island_translate [OF assms] Cons.IH move_islands_def)
qed



lemma move_islands_notin:
  "l \<notin> set (concat iss) \<Longrightarrow> move_islands vec iss u l = u l"
proof (induction iss arbitrary: u)
  case Nil
  show ?case by (simp add: move_islands_def)
next
  case (Cons a iss)
  from Cons.prems have la: "l \<notin> set a" and lr: "l \<notin> set (concat iss)" by simp_all
  have "move_islands vec (a # iss) u
      = move_islands vec iss (translate (fst (vec u a)) (snd (vec u a)) a u)"
    by (simp add: move_islands_def)
  with Cons.IH [OF lr] la show ?case by (simp add: translate_notin)
qed


lemma face_loops_fst: "l \<in> set (face_loops M f) \<Longrightarrow> fst l = f"
  by (auto simp: face_loops_def)

lemma island_uvs_fst: "l \<in> set (island_uvs M I) \<Longrightarrow> fst l \<in> set I"
  by (auto simp: island_uvs_def dest: face_loops_fst)





lemma mesh_islands_selected:
  assumes "ls \<in> set (mesh_islands M uvl pick)" and "l \<in> set ls"
  shows "fst l \<in> selected_faces M"
proof -
  from assms(1) obtain I where I: "I \<in> set (find_islands M uvl pick)" "ls = island_uvs M I"
    by (auto simp: mesh_islands_def)
  with assms(2) have "fst l \<in> set I" by (simp add: island_uvs_fst)
  with I(1) have "fst l \<in> \<Union> (set ` set (find_islands M uvl pick))" by blast
  then show ?thesis by (simp only: find_islands_cover)
qed


section \<open>The target of the snap operator\<close>






lemma offset_islands_zero:
  assumes "grid_columns p = 0 \<or> grid_rows p = 0" and "iss \<noteq> []"
  shows "offset_islands p d iss u = Inl ZeroDivisionError"
  using assms by (cases iss) (auto simp: offset_island_def)





section \<open>The loop over the selected objects\<close>







text \<open>
  The meshes of the selected mesh objects, the coordinate of a loop in a named layer, and
  what the loop over the objects may change: nothing of the topology, the selection or the
  set of layers, and only coordinates of the configured layer that belong to selected
  faces of the meshes of the selected mesh objects.
\<close>

definition selected_meshes :: "obj list \<Rightarrow> nat set" where
  "selected_meshes objs = data ` {ob \<in> set objs. obj_type ob = ''MESH''}"

definition layer_uv :: "bmesh \<Rightarrow> string \<Rightarrow> loop \<Rightarrow> uv option" where
  "layer_uv bm name l = map_option (\<lambda>uvl. uvl l) (uv_layers bm name)"

definition frame :: "'a prefs_scheme \<Rightarrow> obj list \<Rightarrow> scene \<Rightarrow> scene \<Rightarrow> bool" where
  "frame p objs sc sc' \<longleftrightarrow>
     (\<forall>m. faces (sc' m) = faces (sc m) \<and> face_select (sc' m) = face_select (sc m)
          \<and> face_edges (sc' m) = face_edges (sc m) \<and> face_len (sc' m) = face_len (sc m)
          \<and> dom (uv_layers (sc' m)) = dom (uv_layers (sc m)))
     \<and> (\<forall>m name l. layer_uv (sc' m) name l \<noteq> layer_uv (sc m) name l \<longrightarrow>
           m \<in> selected_meshes objs \<and> name = uv_channel p \<and> fst l \<in> selected_faces (sc m))
     \<and> (\<forall>m. m \<notin> selected_meshes objs \<longrightarrow> sc' m = sc m)"

lemma frameI:
  assumes "\<And>m. faces (sc' m) = faces (sc m) \<and> face_select (sc' m) = face_select (sc m)
          \<and> face_edges (sc' m) = face_edges (sc m) \<and> face_len (sc' m) = face_len (sc m)
          \<and> dom (uv_layers (sc' m)) = dom (uv_layers (sc m))"
    and "\<And>m name l. layer_uv (sc' m) name l \<noteq> layer_uv (sc m) name l \<Longrightarrow>
           m \<in> selected_meshes objs \<and> name = uv_channel p \<and> fst l \<in> selected_faces (sc m)"
    and "\<And>m. m \<notin> selected_meshes objs \<Longrightarrow> sc' m = sc m"
  shows "frame p objs sc sc'"
  unfolding frame_def
proof (intro conjI allI impI)
  fix m
  from assms(1) [of m] show "faces (sc' m) = faces (sc m)" by (rule conjunct1)
  from assms(1) [of m] show "face_select (sc' m) = face_select (sc m)" by simp
  from assms(1) [of m] show "face_edges (sc' m) = face_edges (sc m)" by simp
  from assms(1) [of m] show "face_len (sc' m) = face_len (sc m)" by simp
  from assms(1) [of m] show "dom (uv_layers (sc' m)) = dom (uv_layers (sc m))" by simp
next
  fix m name l
  assume "layer_uv (sc' m) name l \<noteq> layer_uv (sc m) name l"
  from assms(2) [OF this]
  show "m \<in> selected_meshes objs" and "name = uv_channel p" and "fst l \<in> selected_faces (sc m)"
    by simp_all
next
  fix m assume "m \<notin> selected_meshes objs"
  then show "sc' m = sc m" by (rule assms(3))
qed

lemma frame_topology:
  assumes "frame p objs sc sc'"
  shows "faces (sc' m) = faces (sc m) \<and> face_select (sc' m) = face_select (sc m)
          \<and> face_edges (sc' m) = face_edges (sc m) \<and> face_len (sc' m) = face_len (sc m)
          \<and> dom (uv_layers (sc' m)) = dom (uv_layers (sc m))"
proof -
  from assms have "\<forall>m. faces (sc' m) = faces (sc m) \<and> face_select (sc' m) = face_select (sc m)
          \<and> face_edges (sc' m) = face_edges (sc m) \<and> face_len (sc' m) = face_len (sc m)
          \<and> dom (uv_layers (sc' m)) = dom (uv_layers (sc m))"
    unfolding frame_def by (rule conjunct1)
  then show ?thesis by (rule spec)
qed

lemma frame_changed:
  assumes "frame p objs sc sc'" and "layer_uv (sc' m) name l \<noteq> layer_uv (sc m) name l"
  shows "m \<in> selected_meshes objs \<and> name = uv_channel p \<and> fst l \<in> selected_faces (sc m)"
proof -
  from assms(1) have "\<forall>m name l. layer_uv (sc' m) name l \<noteq> layer_uv (sc m) name l \<longrightarrow>
           m \<in> selected_meshes objs \<and> name = uv_channel p \<and> fst l \<in> selected_faces (sc m)"
    unfolding frame_def by (elim conjE)
  from this [rule_format, OF assms(2)] show ?thesis .
qed

lemma frame_unselected:
  assumes "frame p objs sc sc'" and "m \<notin> selected_meshes objs"
  shows "sc' m = sc m"
proof -
  from assms(1) have "\<forall>m. m \<notin> selected_meshes objs \<longrightarrow> sc' m = sc m"
    unfolding frame_def by (elim conjE)
  from this [rule_format, OF assms(2)] show ?thesis .
qed

lemma frame_refl: "frame p objs sc sc"
  by (rule frameI) simp_all

lemma selected_meshes_mono: "set objs \<subseteq> set objs' \<Longrightarrow> selected_meshes objs \<subseteq> selected_meshes objs'"
  unfolding selected_meshes_def by (rule image_mono) blast

lemma frame_mono:
  assumes "frame p objs sc sc'" and "set objs \<subseteq> set objs'"
  shows "frame p objs' sc sc'"
proof (rule frameI)
  note sub = selected_meshes_mono [OF assms(2)]
  fix m
  show "faces (sc' m) = faces (sc m) \<and> face_select (sc' m) = face_select (sc m)
          \<and> face_edges (sc' m) = face_edges (sc m) \<and> face_len (sc' m) = face_len (sc m)
          \<and> dom (uv_layers (sc' m)) = dom (uv_layers (sc m))"
    using assms(1) by (rule frame_topology)
  show "sc' m = sc m" if "m \<notin> selected_meshes objs'"
  proof -
    from that sub have "m \<notin> selected_meshes objs" by blast
    with assms(1) show ?thesis by (rule frame_unselected)
  qed
  show "m \<in> selected_meshes objs' \<and> name = uv_channel p \<and> fst l \<in> selected_faces (sc m)"
    if "layer_uv (sc' m) name l \<noteq> layer_uv (sc m) name l" for name l
  proof -
    from frame_changed [OF assms(1) that] sub show ?thesis by blast
  qed
qed

lemma frame_trans:
  assumes a: "frame p objs sc sc1" and b: "frame p objs sc1 sc2"
  shows "frame p objs sc sc2"
proof (rule frameI)
  fix m
  note ta = frame_topology [OF a, of m] and tb = frame_topology [OF b, of m]
  from ta have sel: "selected_faces (sc1 m) = selected_faces (sc m)"
    by (simp add: selected_faces_def)
  from ta tb
  show "faces (sc2 m) = faces (sc m) \<and> face_select (sc2 m) = face_select (sc m)
          \<and> face_edges (sc2 m) = face_edges (sc m) \<and> face_len (sc2 m) = face_len (sc m)
          \<and> dom (uv_layers (sc2 m)) = dom (uv_layers (sc m))"
    by simp
  show "sc2 m = sc m" if "m \<notin> selected_meshes objs"
    using frame_unselected [OF a that] frame_unselected [OF b that] by simp
  show "m \<in> selected_meshes objs \<and> name = uv_channel p \<and> fst l \<in> selected_faces (sc m)"
    if d: "layer_uv (sc2 m) name l \<noteq> layer_uv (sc m) name l" for name l
  proof (cases "layer_uv (sc1 m) name l = layer_uv (sc m) name l")
    case True
    with d have "layer_uv (sc2 m) name l \<noteq> layer_uv (sc1 m) name l" by simp
    from frame_changed [OF b this] sel show ?thesis by simp
  next
    case False
    with a show ?thesis by (rule frame_changed)
  qed
qed

text \<open>One mesh of the loop over the objects: the configured layer is replaced.\<close>

lemma frame_step:
  assumes ob: "ob \<in> set objs" "obj_type ob = ''MESH''"
    and l: "uv_layers (sc (data ob)) (uv_channel p) = Some uvl"
    and u: "\<And>l. uvl' l \<noteq> uvl l \<Longrightarrow> fst l \<in> selected_faces (sc (data ob))"
  shows "frame p objs sc (sc(data ob := set_layer (sc (data ob)) (uv_channel p) uvl'))"
proof (rule frameI)
  define sc1 where "sc1 = sc(data ob := set_layer (sc (data ob)) (uv_channel p) uvl')"
  from ob have mo: "data ob \<in> selected_meshes objs"
    unfolding selected_meshes_def by blast
  have d: "dom (uv_layers (set_layer (sc (data ob)) (uv_channel p) uvl')) = dom (uv_layers (sc (data ob)))"
    using l by (auto simp: set_layer_def)
  fix m
  show "faces ((sc(data ob := set_layer (sc (data ob)) (uv_channel p) uvl')) m) = faces (sc m)
      \<and> face_select ((sc(data ob := set_layer (sc (data ob)) (uv_channel p) uvl')) m) = face_select (sc m)
      \<and> face_edges ((sc(data ob := set_layer (sc (data ob)) (uv_channel p) uvl')) m) = face_edges (sc m)
      \<and> face_len ((sc(data ob := set_layer (sc (data ob)) (uv_channel p) uvl')) m) = face_len (sc m)
      \<and> dom (uv_layers ((sc(data ob := set_layer (sc (data ob)) (uv_channel p) uvl')) m))
          = dom (uv_layers (sc m))"
  proof (cases "m = data ob")
    case True
    with d show ?thesis by (simp add: set_layer_def)
  next
    case False
    then show ?thesis by simp
  qed
  show "(sc(data ob := set_layer (sc (data ob)) (uv_channel p) uvl')) m = sc m"
    if "m \<notin> selected_meshes objs"
  proof -
    from that mo have "m \<noteq> data ob" by blast
    then show ?thesis by simp
  qed
  show "m \<in> selected_meshes objs \<and> name = uv_channel p \<and> fst k \<in> selected_faces (sc m)"
    if c: "layer_uv ((sc(data ob := set_layer (sc (data ob)) (uv_channel p) uvl')) m) name k
          \<noteq> layer_uv (sc m) name k" for name k
  proof -
    have 1: "m = data ob"
    proof (rule ccontr)
      assume "m \<noteq> data ob"
      with c show False by simp
    qed
    have 2: "name = uv_channel p"
    proof (rule ccontr)
      assume "name \<noteq> uv_channel p"
      with c 1 show False by (simp add: layer_uv_def set_layer_def)
    qed
    from c 1 2 l have "uvl' k \<noteq> uvl k" by (simp add: layer_uv_def set_layer_def)
    from u [OF this] 1 2 mo show ?thesis by simp
  qed
qed

lemma snap_islands_frame:
  assumes "snap_islands tx ty (mesh_islands M uvl pick) uvl l \<noteq> uvl l"
  shows "fst l \<in> selected_faces M"
proof (rule ccontr)
  assume n: "fst l \<notin> selected_faces M"
  have "l \<notin> set (concat (mesh_islands M uvl pick))"
  proof
    assume "l \<in> set (concat (mesh_islands M uvl pick))"
    then obtain ls where "ls \<in> set (mesh_islands M uvl pick)" "l \<in> set ls" by auto
    then have "fst l \<in> selected_faces M" by (rule mesh_islands_selected)
    with n show False by simp
  qed
  then have "snap_islands tx ty (mesh_islands M uvl pick) uvl l = uvl l"
    unfolding snap_islands_move by (rule move_islands_notin)
  with assms show False by simp
qed

lemma offset_islands_frame:
  assumes "offset_islands p d (mesh_islands M uvl pick) uvl = Inr uvl'" and "uvl' l \<noteq> uvl l"
  shows "fst l \<in> selected_faces M"
proof (rule ccontr)
  assume n: "fst l \<notin> selected_faces M"
  have notin: "l \<notin> set (concat (mesh_islands M uvl pick))"
  proof
    assume "l \<in> set (concat (mesh_islands M uvl pick))"
    then obtain ls where "ls \<in> set (mesh_islands M uvl pick)" "l \<in> set ls" by auto
    then have "fst l \<in> selected_faces M" by (rule mesh_islands_selected)
    with n show False by simp
  qed
  have "uvl' = uvl \<or> uvl' = move_islands (step_vector p d) (mesh_islands M uvl pick) uvl"
  proof (cases "mesh_islands M uvl pick = []")
    case True
    with assms(1) show ?thesis by simp
  next
    case False
    have nz: "grid_columns p \<noteq> 0" "grid_rows p \<noteq> 0"
      using assms(1) offset_islands_zero [OF _ False, of p d uvl] by auto
    with assms(1) show ?thesis by (simp add: offset_islands_move [OF nz])
  qed
  with notin have "uvl' l = uvl l" by (auto simp: move_islands_notin)
  with assms(2) show False by simp
qed


lemma snap_objects_frame:
  "snap_objects p pick tx ty objs sc = (st, reports, sc') \<Longrightarrow> frame p objs sc sc'"
proof (induction objs arbitrary: sc st reports sc')
  case Nil
  then show ?case by (simp add: frame_refl)
next
  case (Cons ob obs)
  show ?case
  proof (cases "obj_type ob \<noteq> ''MESH''")
    case True
    with Cons.prems have "snap_objects p pick tx ty obs sc = (st, reports, sc')" by simp
    then have "frame p obs sc sc'" by (rule Cons.IH)
    then show ?thesis by (rule frame_mono) auto
  next
    case mesh: False
    show ?thesis
    proof (cases "uv_layers (sc (data ob)) (uv_channel p)")
      case None
      with mesh Cons.prems have "sc' = sc" by simp
      then show ?thesis by (simp add: frame_refl)
    next
      case (Some uvl)
      define uvl' where "uvl' = snap_islands tx ty (mesh_islands (sc (data ob)) uvl pick) uvl"
      define sc1 where "sc1 = sc(data ob := set_layer (sc (data ob)) (uv_channel p) uvl')"
      obtain st1 reports1 sc2 where r: "snap_objects p pick tx ty obs sc1 = (st1, reports1, sc2)"
        by (cases "snap_objects p pick tx ty obs sc1")
      with mesh Some Cons.prems have "sc' = sc2"
        by (simp add: Let_def uvl'_def sc1_def)
      from r have "frame p obs sc1 sc2" by (rule Cons.IH)
      then have b: "frame p (ob # obs) sc1 sc2" by (rule frame_mono) auto
      have a: "frame p (ob # obs) sc sc1"
        unfolding sc1_def using mesh Some
        by (intro frame_step) (auto simp: uvl'_def dest: snap_islands_frame)
      from a b \<open>sc' = sc2\<close> show ?thesis by (auto intro: frame_trans)
    qed
  qed
qed


lemma offset_objects_frame:
  "offset_objects p pick d objs sc = Inr (st, reports, sc') \<Longrightarrow> frame p objs sc sc'"
proof (induction objs arbitrary: sc st reports sc')
  case Nil
  then show ?case by (simp add: frame_refl)
next
  case (Cons ob obs)
  show ?case
  proof (cases "obj_type ob \<noteq> ''MESH''")
    case True
    with Cons.prems have "offset_objects p pick d obs sc = Inr (st, reports, sc')" by simp
    then have "frame p obs sc sc'" by (rule Cons.IH)
    then show ?thesis by (rule frame_mono) auto
  next
    case mesh: False
    show ?thesis
    proof (cases "uv_layers (sc (data ob)) (uv_channel p)")
      case None
      with mesh Cons.prems have "sc' = sc" by simp
      then show ?thesis by (simp add: frame_refl)
    next
      case (Some uvl)
      from mesh Some Cons.prems obtain uvl' where
        o: "offset_islands p d (mesh_islands (sc (data ob)) uvl pick) uvl = Inr uvl'"
        by (cases "offset_islands p d (mesh_islands (sc (data ob)) uvl pick) uvl")
           (simp_all add: Let_def)
      define sc1 where "sc1 = sc(data ob := set_layer (sc (data ob)) (uv_channel p) uvl')"
      from mesh Some Cons.prems o obtain st1 reports1 where
        r: "offset_objects p pick d obs sc1 = Inr (st1, reports1, sc')"
        by (cases "offset_objects p pick d obs sc1")
           (auto simp: Let_def sc1_def)
      from r have "frame p obs sc1 sc'" by (rule Cons.IH)
      then have b: "frame p (ob # obs) sc1 sc'" by (rule frame_mono) auto
      have a: "frame p (ob # obs) sc sc1"
        unfolding sc1_def using mesh Some
        by (intro frame_step) (auto dest: offset_islands_frame [OF o])
      from a b show ?thesis by (rule frame_trans)
    qed
  qed
qed


text \<open>The status and a coordinate of the result of an operator.\<close>

definition result_status :: "error + status \<times> report list \<times> scene \<Rightarrow> status option" where
  "result_status r = (case r of Inl e \<Rightarrow> None | Inr (st, reports, sc) \<Rightarrow> Some st)"

definition result_layer_uv ::
  "error + status \<times> report list \<times> scene \<Rightarrow> nat \<Rightarrow> string \<Rightarrow> loop \<Rightarrow> uv option" where
  "result_layer_uv r m name l =
     (case r of Inl e \<Rightarrow> None | Inr (st, reports, sc) \<Rightarrow> layer_uv (sc m) name l)"

lemma result_status_Some:
  "result_status r = Some st \<Longrightarrow> \<exists>reports sc'. r = Inr (st, reports, sc')"
  by (cases r) (auto simp: result_status_def)

lemma snap_execute_frame:
  assumes "snap_execute p pick cell_index objs sc = Inr (st, reports, sc')"
  shows "frame p objs sc sc'"
proof (cases "grid_columns p * grid_rows p \<le> cell_index")
  case True
  with assms have "sc' = sc" by (simp add: snap_execute_def Let_def)
  then show ?thesis by (simp add: frame_refl)
next
  case False
  with assms obtain tx ty where "snap_objects p pick tx ty objs sc = (st, reports, sc')"
    by (cases "snap_target (grid_columns p) (grid_rows p) cell_index")
       (auto simp: snap_execute_def Let_def)
  then show ?thesis by (rule snap_objects_frame)
qed

lemma frame_layers:
  assumes f: "frame p objs sc sc'"
    and same: "\<And>l. layer_uv (sc' m) name l = layer_uv (sc m) name l"
  shows "uv_layers (sc' m) name = uv_layers (sc m) name"
proof (cases "uv_layers (sc m) name")
  case None
  from frame_topology [OF f, of m] have "dom (uv_layers (sc' m)) = dom (uv_layers (sc m))" by simp
  with None have "name \<notin> dom (uv_layers (sc' m))" by (simp add: domIff)
  with None show ?thesis by (simp add: domIff)
next
  case (Some u)
  from frame_topology [OF f, of m] have "dom (uv_layers (sc' m)) = dom (uv_layers (sc m))" by simp
  with Some have "name \<in> dom (uv_layers (sc' m))" by (simp add: domIff)
  then obtain u' where u': "uv_layers (sc' m) name = Some u'" by (auto simp: domIff)
  have "u' l = u l" for l using same [of l] Some u' by (simp add: layer_uv_def)
  then have "u' = u" by (rule ext)
  with Some u' show ?thesis by simp
qed

lemma frame_absent:
  assumes f: "frame p objs sc sc'" and n: "uv_layers (sc m) (uv_channel p) = None"
  shows "sc' m = sc m" and "uv_layers (sc' m) (uv_channel p) = None"
proof -
  have l: "uv_layers (sc' m) name = uv_layers (sc m) name" for name
  proof (rule frame_layers [OF f])
    fix l
    show "layer_uv (sc' m) name l = layer_uv (sc m) name l"
    proof (rule ccontr)
      assume c: "layer_uv (sc' m) name l \<noteq> layer_uv (sc m) name l"
      from frame_changed [OF f c] have name: "name = uv_channel p" by simp
      from frame_topology [OF f, of m] have "dom (uv_layers (sc' m)) = dom (uv_layers (sc m))"
        by simp
      with n have "uv_channel p \<notin> dom (uv_layers (sc' m))" by (simp add: domIff)
      then have "uv_layers (sc' m) (uv_channel p) = None" by (simp add: domIff)
      with n name c show False by (simp add: layer_uv_def)
    qed
  qed
  then have "uv_layers (sc' m) = uv_layers (sc m)" by (rule ext)
  with frame_topology [OF f, of m] show "sc' m = sc m" by (intro bmesh.equality) simp_all
  from l n show "uv_layers (sc' m) (uv_channel p) = None" by simp
qed

lemma snap_objects_append:
  "snap_objects p pick tx ty pre sc = (FINISHED, reports, sc1) \<Longrightarrow>
   snap_objects p pick tx ty (pre @ rest) sc
     = (case snap_objects p pick tx ty rest sc1 of (st, reports2, sc2) \<Rightarrow> (st, reports @ reports2, sc2))"
proof (induction pre arbitrary: sc reports)
  case Nil
  then show ?case by (simp split: prod.splits)
next
  case (Cons ob pre)
  show ?case
  proof (cases "obj_type ob \<noteq> ''MESH''")
    case True
    with Cons.prems have "snap_objects p pick tx ty pre sc = (FINISHED, reports, sc1)" by simp
    from Cons.IH [OF this] True show ?thesis by simp
  next
    case mesh: False
    show ?thesis
    proof (cases "uv_layers (sc (data ob)) (uv_channel p)")
      case None
      with mesh Cons.prems show ?thesis by simp
    next
      case (Some uvl)
      define islands where "islands = mesh_islands (sc (data ob)) uvl pick"
      define sc0 where "sc0 = sc(data ob := set_layer (sc (data ob)) (uv_channel p)
        (snap_islands tx ty islands uvl))"
      obtain st r sc2 where r: "snap_objects p pick tx ty pre sc0 = (st, r, sc2)"
        by (cases "snap_objects p pick tx ty pre sc0")
      have head: "snap_objects p pick tx ty (ob # xs) sc
          = (case snap_objects p pick tx ty xs sc0 of
               (st, reports, sc'') \<Rightarrow> (st, no_uvs_warning islands @ reports, sc''))" for xs
        unfolding islands_def sc0_def using mesh Some by (simp add: Let_def)
      from Cons.prems [unfolded head] r
      have eq: "st = FINISHED" "reports = no_uvs_warning islands @ r" "sc2 = sc1"
        by simp_all
      from r eq have "snap_objects p pick tx ty pre sc0 = (FINISHED, r, sc1)" by simp
      from Cons.IH [OF this] have "snap_objects p pick tx ty (pre @ rest) sc0
          = (case snap_objects p pick tx ty rest sc1 of
               (st, reports2, sc2) \<Rightarrow> (st, r @ reports2, sc2))" .
      then show ?thesis
        by (simp add: head [of "pre @ rest", simplified] eq(2) split: prod.splits)
    qed
  qed
qed

lemma offset_objects_append:
  "offset_objects p pick d pre sc = Inr (FINISHED, reports, sc1) \<Longrightarrow>
   offset_objects p pick d (pre @ rest) sc
     = (case offset_objects p pick d rest sc1 of
          Inl e \<Rightarrow> Inl e
        | Inr (st, reports2, sc2) \<Rightarrow> Inr (st, reports @ reports2, sc2))"
proof (induction pre arbitrary: sc reports)
  case Nil
  then show ?case by (simp split: prod.splits sum.splits)
next
  case (Cons ob pre)
  show ?case
  proof (cases "obj_type ob \<noteq> ''MESH''")
    case True
    with Cons.prems have "offset_objects p pick d pre sc = Inr (FINISHED, reports, sc1)" by simp
    from Cons.IH [OF this] True show ?thesis by simp
  next
    case mesh: False
    show ?thesis
    proof (cases "uv_layers (sc (data ob)) (uv_channel p)")
      case None
      with mesh Cons.prems show ?thesis by simp
    next
      case (Some uvl)
      define islands where "islands = mesh_islands (sc (data ob)) uvl pick"
      from mesh Some Cons.prems obtain uvl' where
        o: "offset_islands p d islands uvl = Inr uvl'"
        by (cases "offset_islands p d islands uvl") (simp_all add: Let_def islands_def)
      define sc0 where "sc0 = sc(data ob := set_layer (sc (data ob)) (uv_channel p) uvl')"
      have head: "offset_objects p pick d (ob # xs) sc
          = (case offset_objects p pick d xs sc0 of
               Inl e \<Rightarrow> Inl e
             | Inr (st, reports, sc'') \<Rightarrow> Inr (st, no_uvs_warning islands @ reports, sc''))" for xs
        unfolding islands_def sc0_def using mesh Some o [unfolded islands_def]
        by (simp add: Let_def)
      from Cons.prems [unfolded head]
      obtain r where r: "offset_objects p pick d pre sc0 = Inr (FINISHED, r, sc1)"
        and rep: "reports = no_uvs_warning islands @ r"
        by (cases "offset_objects p pick d pre sc0") auto
      from Cons.IH [OF r] have "offset_objects p pick d (pre @ rest) sc0
          = (case offset_objects p pick d rest sc1 of
               Inl e \<Rightarrow> Inl e
             | Inr (st, reports2, sc2) \<Rightarrow> Inr (st, r @ reports2, sc2))" .
      then show ?thesis
        by (simp add: head [of "pre @ rest", simplified] rep split: prod.splits sum.splits)
    qed
  qed
qed

section \<open>Snapping a mesh twice\<close>















section \<open>Claims\<close>

text \<open>
  C5. When \<open>cell_index\<close> is at least \<open>columns * rows\<close>, the snap operator reports
  ``Cell index out of bounds'', returns \<open>CANCELLED\<close> and leaves every mesh of the scene as
  it was: it returns before the loop over the selected objects. With 4 columns and 2 rows
  this is the case for cell 8.
\<close>

theorem snap_out_of_bounds:
  assumes "grid_columns p * grid_rows p \<le> cell_index"
  shows "snap_execute p pick cell_index selected_objects sc
           = Inr (CANCELLED, [(''ERROR'', ''Cell index out of bounds'')], sc)"
  using assms by (simp add: snap_execute_def Let_def)

theorem snap_out_of_bounds_witness:
  "grid_columns demo_prefs * grid_rows demo_prefs \<le> 8 \<and>
   snap_execute demo_prefs pop_first 8 [mesh_object 0, mesh_object 1] demo_scene
     = Inr (CANCELLED, [(''ERROR'', ''Cell index out of bounds'')], demo_scene)"
proof -
  have h: "grid_columns demo_prefs * grid_rows demo_prefs \<le> 8"
    by (simp add: demo_prefs_def)
  from h snap_out_of_bounds [OF h] show ?thesis by simp
qed















text \<open>
  C3, as the code has it. When the configured channel is absent on a selected mesh, the
  operator reports the error for it and returns \<open>CANCELLED\<close> at once: that mesh is not
  changed, the objects after it are not processed, and the scene is the one left by the
  objects before it.
\<close>

theorem missing_channel_aborts:
  assumes "obj_type ob = ''MESH''" and "uv_layers (sc (data ob)) (uv_channel p) = None"
  shows "(snap_execute p pick cell_index pre sc = Inr (FINISHED, reports, sc') \<longrightarrow>
            snap_execute p pick cell_index (pre @ ob # post) sc
              = Inr (CANCELLED, reports @ [channel_error p], sc')
            \<and> sc' (data ob) = sc (data ob))
       \<and> (offset_execute p pick direction pre sc = Inr (FINISHED, reports, sc') \<longrightarrow>
            offset_execute p pick direction (pre @ ob # post) sc
              = Inr (CANCELLED, reports @ [channel_error p], sc')
            \<and> sc' (data ob) = sc (data ob))"
proof (intro conjI impI)
  assume r: "snap_execute p pick cell_index pre sc = Inr (FINISHED, reports, sc')"
  then have f: "frame p pre sc sc'" by (rule snap_execute_frame)
  have n: "uv_layers (sc' (data ob)) (uv_channel p) = None"
    using f assms(2) by (rule frame_absent(2))
  show "sc' (data ob) = sc (data ob)"
    using f assms(2) by (rule frame_absent(1))
  from r have nb: "\<not> grid_columns p * grid_rows p \<le> cell_index"
    by (auto simp: snap_execute_def Let_def)
  with r obtain tx ty where t: "snap_target (grid_columns p) (grid_rows p) cell_index = Inr (tx, ty)"
    and o: "snap_objects p pick tx ty pre sc = (FINISHED, reports, sc')"
    by (cases "snap_target (grid_columns p) (grid_rows p) cell_index")
       (auto simp: snap_execute_def Let_def)
  have "snap_objects p pick tx ty (ob # post) sc' = (CANCELLED, [channel_error p], sc')"
    using assms(1) n by simp
  with snap_objects_append [OF o, of "ob # post"]
  have "snap_objects p pick tx ty (pre @ ob # post) sc
      = (CANCELLED, reports @ [channel_error p], sc')" by simp
  with nb t show "snap_execute p pick cell_index (pre @ ob # post) sc
      = Inr (CANCELLED, reports @ [channel_error p], sc')"
    by (simp add: snap_execute_def Let_def)
next
  assume r: "offset_execute p pick direction pre sc = Inr (FINISHED, reports, sc')"
  then have o: "offset_objects p pick direction pre sc = Inr (FINISHED, reports, sc')"
    by (simp add: offset_execute_def)
  then have f: "frame p pre sc sc'" by (rule offset_objects_frame)
  have n: "uv_layers (sc' (data ob)) (uv_channel p) = None"
    using f assms(2) by (rule frame_absent(2))
  show "sc' (data ob) = sc (data ob)"
    using f assms(2) by (rule frame_absent(1))
  have "offset_objects p pick direction (ob # post) sc' = Inr (CANCELLED, [channel_error p], sc')"
    using assms(1) n by simp
  with offset_objects_append [OF o, of "ob # post"]
  show "offset_execute p pick direction (pre @ ob # post) sc
      = Inr (CANCELLED, reports @ [channel_error p], sc')"
    by (simp add: offset_execute_def)
qed

theorem missing_channel_aborts_witness:
  "obj_type (mesh_object 0) = ''MESH''
   \<and> uv_layers (demo_scene (data (mesh_object 0))) (uv_channel demo_prefs) = None
   \<and> (\<exists>reports sc'.
        snap_execute demo_prefs pop_first 5 [mesh_object 1] demo_scene = Inr (FINISHED, reports, sc')
        \<and> snap_execute demo_prefs pop_first 5 ([mesh_object 1] @ mesh_object 0 # [mesh_object 2]) demo_scene
             = Inr (CANCELLED, reports @ [channel_error demo_prefs], sc'))"
proof -
  have a: "obj_type (mesh_object 0) = ''MESH''" by (simp add: mesh_object_def)
  have b: "uv_layers (demo_scene (data (mesh_object 0))) (uv_channel demo_prefs) = None"
    by (simp add: mesh_object_def demo_scene_def other_mesh_def demo_prefs_def)
  have "result_status (snap_execute demo_prefs pop_first 5 [mesh_object 1] demo_scene) = Some FINISHED"
    by code_simp
  then obtain reports sc' where
    r: "snap_execute demo_prefs pop_first 5 [mesh_object 1] demo_scene = Inr (FINISHED, reports, sc')"
    using result_status_Some by blast
  from missing_channel_aborts [where ob = "mesh_object 0" and sc = demo_scene and p = demo_prefs
      and pick = pop_first and cell_index = 5 and pre = "[mesh_object 1]" and reports = reports
      and sc' = sc' and post = "[mesh_object 2]", OF a b] r
  have "snap_execute demo_prefs pop_first 5 ([mesh_object 1] @ mesh_object 0 # [mesh_object 2]) demo_scene
             = Inr (CANCELLED, reports @ [channel_error demo_prefs], sc')"
    by blast
  with a b r show ?thesis by blast
qed

text \<open>
  C3 as stated fails: mesh 0 lacks the channel, mesh 1 has it. Selected after mesh 0,
  mesh 1 keeps its coordinates; selected alone, it is snapped.
\<close>

theorem later_mesh_skipped_counterexample:
  "layer_uv (demo_scene 0) ''ch3'' (0, 0) = None
   \<and> layer_uv (demo_scene 1) ''ch3'' (0, 0) = Some (0, 0)
   \<and> result_status (snap_execute demo_prefs pop_first 0 [mesh_object 0, mesh_object 1] demo_scene)
       = Some CANCELLED
   \<and> result_layer_uv (snap_execute demo_prefs pop_first 0 [mesh_object 0, mesh_object 1] demo_scene)
        1 ''ch3'' (0, 0) = Some (0, 0)
   \<and> result_layer_uv (snap_execute demo_prefs pop_first 0 [mesh_object 1] demo_scene)
        1 ''ch3'' (0, 0) = Some (1 / 40, 13 / 20)"
  by code_simp

text \<open>
  C9. Both operators change only coordinates of the configured layer that belong to
  selected faces of the meshes of the selected mesh objects: topology, selection and the
  set of layers stay, the coordinates of loops of unselected faces and of every other
  layer stay, and a mesh that no selected mesh object refers to stays as it is. The
  detector is a function of the mesh and the layer and returns only the islands.
\<close>

theorem operators_frame:
  assumes "snap_execute p pick cell_index selected_objects sc = Inr (st, reports, sc')
         \<or> offset_execute p pick direction selected_objects sc = Inr (st, reports, sc')"
  shows "faces (sc' m) = faces (sc m) \<and> face_select (sc' m) = face_select (sc m)
       \<and> face_edges (sc' m) = face_edges (sc m) \<and> face_len (sc' m) = face_len (sc m)
       \<and> dom (uv_layers (sc' m)) = dom (uv_layers (sc m))
       \<and> (fst l \<notin> selected_faces (sc m) \<longrightarrow> layer_uv (sc' m) name l = layer_uv (sc m) name l)
       \<and> (name \<noteq> uv_channel p \<longrightarrow> layer_uv (sc' m) name l = layer_uv (sc m) name l)
       \<and> (m \<notin> selected_meshes selected_objects \<longrightarrow> sc' m = sc m)"
proof -
  have f: "frame p selected_objects sc sc'"
    using assms
  proof
    assume "snap_execute p pick cell_index selected_objects sc = Inr (st, reports, sc')"
    then show ?thesis by (rule snap_execute_frame)
  next
    assume "offset_execute p pick direction selected_objects sc = Inr (st, reports, sc')"
    then show ?thesis unfolding offset_execute_def by (rule offset_objects_frame)
  qed
  have a: "layer_uv (sc' m) name l = layer_uv (sc m) name l" if "fst l \<notin> selected_faces (sc m)"
  proof (rule ccontr)
    assume "layer_uv (sc' m) name l \<noteq> layer_uv (sc m) name l"
    from frame_changed [OF f this] that show False by simp
  qed
  have b: "layer_uv (sc' m) name l = layer_uv (sc m) name l" if "name \<noteq> uv_channel p"
  proof (rule ccontr)
    assume "layer_uv (sc' m) name l \<noteq> layer_uv (sc m) name l"
    from frame_changed [OF f this] that show False by simp
  qed
  have c: "sc' m = sc m" if "m \<notin> selected_meshes selected_objects"
    using f that by (rule frame_unselected)
  from frame_topology [OF f, of m] a b c show ?thesis by simp
qed

theorem operators_frame_witness:
  "(\<exists>reports sc'.
      snap_execute demo_prefs pop_first 5 [mesh_object 1] demo_scene = Inr (FINISHED, reports, sc')
      \<and> layer_uv (sc' 1) ''ch3'' (2, 0) = layer_uv (demo_scene 1) ''ch3'' (2, 0)
      \<and> layer_uv (sc' 1) ''UVMap'' (0, 0) = layer_uv (demo_scene 1) ''UVMap'' (0, 0)
      \<and> sc' 2 = demo_scene 2)
   \<and> fst (2::nat, 0::nat) \<notin> selected_faces (demo_scene 1)
   \<and> ''UVMap'' \<noteq> uv_channel demo_prefs
   \<and> 2 \<notin> selected_meshes [mesh_object 1]"
proof -
  have "result_status (snap_execute demo_prefs pop_first 5 [mesh_object 1] demo_scene) = Some FINISHED"
    by code_simp
  then obtain reports sc' where
    r: "snap_execute demo_prefs pop_first 5 [mesh_object 1] demo_scene = Inr (FINISHED, reports, sc')"
    using result_status_Some by blast
  have a: "fst (2::nat, 0::nat) \<notin> selected_faces (demo_scene 1)"
    by (simp add: selected_faces_def demo_scene_def seam_mesh_def)
  have b: "''UVMap'' \<noteq> uv_channel demo_prefs" by (simp add: demo_prefs_def)
  have c: "2 \<notin> selected_meshes [mesh_object 1]"
    by (auto simp: selected_meshes_def mesh_object_def)
  from operators_frame [OF disjI1, OF r, of 1 "(2, 0)" "''ch3''"] a
  have 1: "layer_uv (sc' 1) ''ch3'' (2, 0) = layer_uv (demo_scene 1) ''ch3'' (2, 0)" by blast
  from operators_frame [OF disjI1, OF r, of 1 "(0, 0)" "''UVMap''"] b
  have 2: "layer_uv (sc' 1) ''UVMap'' (0, 0) = layer_uv (demo_scene 1) ''UVMap'' (0, 0)" by blast
  from operators_frame [OF disjI1, OF r, of 2 "(0, 0)" "''ch3''"] c
  have 3: "sc' 2 = demo_scene 2" by blast
  from r 1 2 3 a b c show ?thesis by blast
qed




end
